theory Spec2Isabelle
  imports Main
begin

section \<open>The output stream that \<open>SsLogger::format\<close> writes to\<close>

text \<open>
  \<open>format\<close> builds its result in a local \<open>std::stringstream ss\<close>. Of the stream only the
  characters written so far and the formatting flags matter here. \<open>std::ios_base::fmtflags\<close>
  is a bitmask type: a value is the set of the bits that are on, \<open>setf\<close> is union and the
  test \<open>if (flags)\<close> asks for a non-empty set.
\<close>

datatype fmtflag = dec | hex | oct | skipws

type_synonym fmtflags = "fmtflag set"

definition basefield :: fmtflags where
  "basefield = {dec, oct, hex}"

record ostream =
  buf :: string
  flags :: fmtflags

text \<open>A default-constructed stream is empty and has \<open>skipws | dec\<close> set.\<close>

definition stringstream :: ostream where
  "stringstream = \<lparr>buf = [], flags = {skipws, dec}\<rparr>"

text \<open>\<open>out.setf(fl)\<close> turns the bits of \<open>fl\<close> on and leaves every other bit as it is.\<close>

definition setf :: "fmtflags \<Rightarrow> ostream \<Rightarrow> ostream" where
  "setf fl out = out\<lparr>flags := flags out \<union> fl\<rparr>"

text \<open>\<open>out.setf(fl, mask)\<close> clears the bits of \<open>mask\<close> and turns those of \<open>fl\<close> within it on.\<close>

definition setf_masked :: "fmtflags \<Rightarrow> fmtflags \<Rightarrow> ostream \<Rightarrow> ostream" where
  "setf_masked fl msk out = out\<lparr>flags := (flags out - msk) \<union> (fl \<inter> msk)\<rparr>"

text \<open>\<open>out << text\<close> for a character or a character sequence.\<close>

definition write_chars :: "string \<Rightarrow> ostream \<Rightarrow> ostream" where
  "write_chars cs out = out\<lparr>buf := buf out @ cs\<rparr>"

subsection \<open>Integer insertion\<close>

definition digit_char :: "nat \<Rightarrow> char" where
  "digit_char d = ''0123456789abcdef'' ! d"

text \<open>
  The digits of \<open>n\<close> in base \<open>b\<close>, most significant first. The stream only asks for the
  bases 8, 10 and 16; the test \<open>b < 2\<close> is there for totality.
\<close>

function to_base :: "nat \<Rightarrow> nat \<Rightarrow> string" where
  "to_base b n =
     (if b < 2 \<or> n < b then [digit_char n]
      else to_base b (n div b) @ [digit_char (n mod b)])"
  by pat_completeness auto
termination
  by (relation "measure snd") auto

declare to_base.simps [simp del]

text \<open>
  The values handed to \<open>format\<close> are a heterogeneous pack \<open>Args... args\<close>; each is written
  with its own \<open>operator<<\<close>. The kinds modelled are \<open>int\<close> (32 bits, two's complement),
  \<open>char\<close> and character strings (\<open>const char *\<close>, \<open>std::string\<close>).
\<close>

datatype arg = ArgInt int | ArgChar char | ArgStr string

text \<open>
  \<open>num_put\<close> chooses the conversion from \<open>flags & basefield\<close>: octal when exactly \<open>oct\<close>
  is set, hexadecimal when exactly \<open>hex\<close> is set, decimal in every other case (also when
  two of the bits are on). Octal and hexadecimal show the value as unsigned.
\<close>

definition show_int :: "fmtflags \<Rightarrow> int \<Rightarrow> string" where
  "show_int fl v =
     (if fl \<inter> basefield = {oct} then to_base 8 (nat (v mod 2 ^ 32))
      else if fl \<inter> basefield = {hex} then to_base 16 (nat (v mod 2 ^ 32))
      else if v < 0 then CHR ''-'' # to_base 10 (nat (- v))
      else to_base 10 (nat v))"

fun show_arg :: "fmtflags \<Rightarrow> arg \<Rightarrow> string" where
  "show_arg fl (ArgInt v) = show_int fl v"
| "show_arg fl (ArgChar c) = [c]"
| "show_arg fl (ArgStr s) = s"

text \<open>\<open>out << value\<close>\<close>

definition put :: "arg \<Rightarrow> ostream \<Rightarrow> ostream" where
  "put v out = write_chars (show_arg (flags out) v) out"

section \<open>Runtime-indexed access to the argument tuple\<close>

datatype fault = AssertionFailed | ReadPastTerminator

text \<open>
  \<open>VisitImpl<I>::visit(tuple, idx, func)\<close>: the template recursion counts \<open>I\<close> down from
  the tuple's size; \<open>VisitImpl<0>\<close> is \<open>assert(false)\<close>. The function object is taken by
  value, so what it changes in itself is gone when \<open>visit\<close> returns; what it changes
  through a reference (here the stream, the state \<open>'s\<close>) stays.
\<close>

fun VisitImpl :: "nat \<Rightarrow> arg list \<Rightarrow> nat \<Rightarrow> (arg \<Rightarrow> 's \<Rightarrow> 's) \<Rightarrow> 's \<Rightarrow> fault + 's" where
  "VisitImpl 0 tuple idx func s = Inl AssertionFailed"
| "VisitImpl (Suc I) tuple idx func s =
     (if idx = I then Inr (func (tuple ! I) s) else VisitImpl I tuple idx func s)"

definition visit :: "arg list \<Rightarrow> nat \<Rightarrow> (arg \<Rightarrow> 's \<Rightarrow> 's) \<Rightarrow> 's \<Rightarrow> fault + 's" where
  "visit tuple idx func s = VisitImpl (length tuple) tuple idx func s"

section \<open>\<open>TupleElementPrinter\<close>\<close>

text \<open>
  The printer holds a reference to the stream (\<open>_output\<close>) and the field
  \<open>_defaultFlags\<close>. The stream is not part of the record: it is the \<open>ss\<close> of \<open>format\<close>,
  passed along with the printer.
\<close>

record TupleElementPrinter =
  defaultFlags :: fmtflags

text \<open>
  Modelled from the spec: the constructor \<open>TupleElementPrinter(std::ostream &)\<close> is declared
  in the header and defined elsewhere. A new printer has no flag pending.
\<close>

definition new_printer :: TupleElementPrinter where
  "new_printer = \<lparr>defaultFlags = {}\<rparr>"

text \<open>
  Modelled from the spec: \<open>TupleElementPrinter::setFlag\<close> is declared in the header and
  defined elsewhere. It "sets a one-shot flag on the next consumed argument", a flag
  that "overrides the representation" of that argument and is cleared afterwards. The
  source's \<open>operator()\<close> writes the value with the stream's flags as they are and then
  hands \<open>_defaultFlags\<close> back to the stream, so \<open>setFlag\<close> is what puts the flag on the
  stream and keeps the stream's flags of before in \<open>_defaultFlags\<close>:
  \<open>_defaultFlags = _output.flags(); _output.setf(flags, std::ios::basefield);\<close>
\<close>

definition setFlag ::
  "fmtflags \<Rightarrow> ostream \<times> TupleElementPrinter \<Rightarrow> ostream \<times> TupleElementPrinter" where
  "setFlag fl = (\<lambda>(out, p). (setf_masked fl basefield out, p\<lparr>defaultFlags := flags out\<rparr>))"

text \<open>
  \<open>operator()(value)\<close>: the value is written first; then, when \<open>_defaultFlags\<close> is not
  zero, the flags are handed to the stream with \<open>setf\<close> and the field is zeroed.
\<close>

definition printer_call ::
  "arg \<Rightarrow> ostream \<times> TupleElementPrinter \<Rightarrow> ostream \<times> TupleElementPrinter" where
  "printer_call v = (\<lambda>(out, p).
     let out1 = put v out in
     if defaultFlags p \<noteq> {} then (setf (defaultFlags p) out1, p\<lparr>defaultFlags := {}\<rparr>)
     else (out1, p))"

section \<open>\<open>SsLogger::format\<close>\<close>

text \<open>
  A \<open>Format\<close> is a \<open>const char *\<close>. It is modelled by the characters before the
  terminating NUL, so \<open>strlen\<close> is the length of the list. \<open>fmt[k]\<close> is that character
  for \<open>k < strlen(fmt)\<close>, the NUL for \<open>k = strlen(fmt)\<close>, and a read outside the array
  beyond that.
\<close>

definition strlen :: "string \<Rightarrow> nat" where
  "strlen fmt = length fmt"

definition NUL :: char where
  "NUL = CHR 0x00"

definition char_at :: "string \<Rightarrow> nat \<Rightarrow> char option" where
  "char_at fmt k =
     (if k < length fmt then Some (fmt ! k)
      else if k = length fmt then Some NUL
      else None)"

text \<open>\<open>isalnum\<close> in the "C" locale.\<close>

definition isalnum :: "char \<Rightarrow> bool" where
  "isalnum c =
     (let n = (of_char c :: nat) in
      (48 \<le> n \<and> n \<le> 57) \<or> (65 \<le> n \<and> n \<le> 90) \<or> (97 \<le> n \<and> n \<le> 122))"

record format_state =
  ss :: ostream
  printer :: TupleElementPrinter
  index :: nat

text \<open>
  \<open>while (isalnum(fmt[++i])) ;\<close> started with \<open>i\<close>: the result is the value of \<open>i\<close>
  when the loop stops.
\<close>

function skip_alnum :: "string \<Rightarrow> nat \<Rightarrow> fault + nat" where
  "skip_alnum fmt i =
     (case char_at fmt (Suc i) of
        None \<Rightarrow> Inl ReadPastTerminator
      | Some c \<Rightarrow> if isalnum c then skip_alnum fmt (Suc i) else Inr (Suc i))"
  by pat_completeness auto
termination
proof (relation "measure (\<lambda>(fmt, i). length fmt - i)")
  show "wf (measure (\<lambda>(fmt, i). length fmt - i))" by simp
next
  fix fmt :: string and i c
  assume "char_at fmt (Suc i) = Some c" and "isalnum c"
  then have "Suc i < length fmt"
    by (auto simp: char_at_def isalnum_def NUL_def split: if_splits)
  then show "((fmt, Suc i), (fmt, i)) \<in> measure (\<lambda>(fmt, i). length fmt - i)"
    by simp
qed

declare skip_alnum.simps [simp del]

text \<open>
  The lambda \<open>output\<close> (here \<open>output_at\<close>), called as \<open>output(++i)\<close>: here \<open>i\<close> is the value after the
  increment. The printer is passed to \<open>visit\<close> by value and called on the copy; in the
  other branch \<open>printer('%')\<close> is a call on the printer itself.
\<close>

definition output_at :: "string \<Rightarrow> arg list \<Rightarrow> nat \<Rightarrow> format_state \<Rightarrow> fault + (nat \<times> format_state)" where
  "output_at fmt tuple i s =
     (if index s < length tuple then
        (case visit tuple (index s) (\<lambda>v out. fst (printer_call v (out, printer s))) (ss s) of
           Inl e \<Rightarrow> Inl e
         | Inr out \<Rightarrow>
             (case skip_alnum fmt i of
                Inl e \<Rightarrow> Inl e
              | Inr j \<Rightarrow> Inr (j - 1, s\<lparr>ss := out, index := Suc (index s)\<rparr>)))
      else
        (case printer_call (ArgChar CHR ''%'') (ss s, printer s) of
           (out, p) \<Rightarrow> Inr (i, s\<lparr>ss := out, printer := p\<rparr>)))"

text \<open>The two statements of \<open>case 'x'\<close>: \<open>ss << "0x"; printer.setFlag(std::ios::hex);\<close>\<close>

definition case_x :: "format_state \<Rightarrow> format_state" where
  "case_x s =
     (case setFlag {hex} (write_chars ''0x'' (ss s), printer s) of
        (out, p) \<Rightarrow> s\<lparr>ss := out, printer := p\<rparr>)"

text \<open>
  One pass through the body of the \<open>for\<close> loop at position \<open>i < strlen(fmt)\<close>; the result
  holds the value of \<open>i\<close> before the loop's own \<open>++i\<close>.
\<close>

definition format_body :: "string \<Rightarrow> arg list \<Rightarrow> nat \<Rightarrow> format_state \<Rightarrow> fault + (nat \<times> format_state)" where
  "format_body fmt tuple i s =
     (if fmt ! i \<noteq> CHR ''%'' then Inr (i, s\<lparr>ss := write_chars [fmt ! i] (ss s)\<rparr>)
      else
        (case char_at fmt (i + 1) of
           None \<Rightarrow> Inl ReadPastTerminator
         | Some c \<Rightarrow>
             if c = CHR ''%'' then Inr (i + 1, s\<lparr>ss := write_chars [fmt ! i] (ss s)\<rparr>)
             else if c = CHR ''x'' then
               output_at fmt tuple (i + 1)
                 (case_x s)
             else output_at fmt tuple (i + 1) s))"

function format_loop :: "string \<Rightarrow> arg list \<Rightarrow> nat \<Rightarrow> format_state \<Rightarrow> fault + format_state" where
  "format_loop fmt tuple i s =
     (if i < strlen fmt then
        (case format_body fmt tuple i s of
           Inl e \<Rightarrow> Inl e
         | Inr (i', s') \<Rightarrow> format_loop fmt tuple (Suc i') s')
      else Inr s)"
  by pat_completeness auto
termination
proof (relation "measure (\<lambda>(fmt, tuple, i, s). length fmt - i)")
  show "wf (measure (\<lambda>(fmt, tuple, i, s). length fmt - i))" by simp
next
  fix fmt :: string and tuple :: "arg list" and i :: nat and s :: format_state
    and r i' s'
  assume lt: "i < strlen fmt" and body: "format_body fmt tuple i s = Inr r" and r: "(i', s') = r"
  have skip: "skip_alnum fmt k = Inr j \<Longrightarrow> k < j" for k j
  proof (induction fmt k rule: skip_alnum.induct)
    case (1 fmt k)
    then show ?case
      by (subst (asm) (2) skip_alnum.simps) (auto split: option.splits if_splits)
  qed
  have out: "output_at fmt tuple k t = Inr (i', s') \<Longrightarrow> k \<le> i'" for k t
    by (auto simp: output_at_def split: if_splits sum.splits prod.splits dest!: skip)
  from body r have "i \<le> i'"
    by (auto simp: format_body_def split: if_splits option.splits dest!: out)
  moreover from lt have "i < length fmt"
    by (simp add: strlen_def)
  ultimately show "((fmt, tuple, Suc i', s'), (fmt, tuple, i, s))
      \<in> measure (\<lambda>(fmt, tuple, i, s). length fmt - i)"
    by simp
qed

declare format_loop.simps [simp del]

definition format_init :: format_state where
  "format_init = \<lparr>ss = stringstream, printer = new_printer, index = 0\<rparr>"

definition format :: "string \<Rightarrow> arg list \<Rightarrow> fault + string" where
  "format fmt args =
     (case format_loop fmt args 0 format_init of
        Inl e \<Rightarrow> Inl e
      | Inr s \<Rightarrow> Inr (buf (ss s)))"

text \<open>
  Two ways to relate runs of the loop: the result of a pass with its position moved \<open>n\<close>
  places to the right, and a state whose stream holds the text \<open>b\<close> in front of what it
  holds.
\<close>

definition behind :: "nat \<Rightarrow> fault + (nat \<times> format_state) \<Rightarrow> fault + (nat \<times> format_state)" where
  "behind n r = (case r of Inl e \<Rightarrow> Inl e | Inr (i, s) \<Rightarrow> Inr (n + i, s))"

definition with_prefix :: "string \<Rightarrow> format_state \<Rightarrow> format_state" where
  "with_prefix b s = s\<lparr>ss := (ss s)\<lparr>buf := b @ buf (ss s)\<rparr>\<rparr>"

text \<open>
  The number of substitution points of a format string, read off the rules of the
  format mini-language: \<open>%%\<close> is an escape and asks for no argument; any other \<open>%\<close>
  begins a substitution and takes the character after it (when there is one) with it.
\<close>

fun substitution_points :: "string \<Rightarrow> nat" where
  "substitution_points [] = 0"
| "substitution_points [c] = (if c = CHR ''%'' then 1 else 0)"
| "substitution_points (c # d # cs) =
     (if c \<noteq> CHR ''%'' then substitution_points (d # cs)
      else if d = CHR ''%'' then substitution_points cs
      else Suc (substitution_points cs))"


section \<open>The level-keyed entry points\<close>

datatype LoggerLevel =
  LL_VERBOSE | LL_DEBUG | LL_INFO | LL_WARNING | LL_ERROR | LL_EMERGENCY

definition OPERATOR_FAILURE :: int where
  "OPERATOR_FAILURE = - 1"

text \<open>
  What a call hands back: the six level-keyed functions are declared \<open>void\<close>, the
  generic \<open>log(level, fmt, args...)\<close> is declared to return \<open>std::string\<close>.
\<close>

datatype retval = Void | Text string

text \<open>
  How a call ends: it returns to its caller, it ends the process through
  \<open>std::exit(status)\<close>, or \<open>format\<close> has left defined behaviour. \<open>'w\<close> is everything the
  private overload \<open>log(level, message)\<close> can change (the destinations of the loggers).
\<close>

datatype 'w outcome = Returned retval 'w | Exited int 'w | Faulted fault

fun returned :: "'w outcome \<Rightarrow> retval option" where
  "returned (Returned r w) = Some r"
| "returned (Exited status w) = None"
| "returned (Faulted e) = None"

fun exit_status :: "'w outcome \<Rightarrow> int option" where
  "exit_status (Returned r w) = None"
| "exit_status (Exited status w) = Some status"
| "exit_status (Faulted e) = None"

text \<open>
  The private overload \<open>log(LoggerLevel, std::string)\<close> is declared in the class and
  defined elsewhere. The entry points take it as the parameter \<open>log_message\<close>: whether it
  writes the message, and where, is its own affair.
\<close>

type_synonym 'w private_log = "LoggerLevel \<Rightarrow> string \<Rightarrow> 'w \<Rightarrow> 'w"

definition verbose :: "'w private_log \<Rightarrow> string \<Rightarrow> arg list \<Rightarrow> 'w \<Rightarrow> 'w outcome" where
  "verbose log_message fmt args w =
     (case format fmt args of
        Inl e \<Rightarrow> Faulted e
      | Inr message \<Rightarrow> Returned Void (log_message LL_VERBOSE message w))"

definition debug :: "'w private_log \<Rightarrow> string \<Rightarrow> arg list \<Rightarrow> 'w \<Rightarrow> 'w outcome" where
  "debug log_message fmt args w =
     (case format fmt args of
        Inl e \<Rightarrow> Faulted e
      | Inr message \<Rightarrow> Returned Void (log_message LL_DEBUG message w))"

definition info :: "'w private_log \<Rightarrow> string \<Rightarrow> arg list \<Rightarrow> 'w \<Rightarrow> 'w outcome" where
  "info log_message fmt args w =
     (case format fmt args of
        Inl e \<Rightarrow> Faulted e
      | Inr message \<Rightarrow> Returned Void (log_message LL_INFO message w))"

definition warning :: "'w private_log \<Rightarrow> string \<Rightarrow> arg list \<Rightarrow> 'w \<Rightarrow> 'w outcome" where
  "warning log_message fmt args w =
     (case format fmt args of
        Inl e \<Rightarrow> Faulted e
      | Inr message \<Rightarrow> Returned Void (log_message LL_WARNING message w))"

definition error :: "'w private_log \<Rightarrow> string \<Rightarrow> arg list \<Rightarrow> 'w \<Rightarrow> 'w outcome" where
  "error log_message fmt args w =
     (case format fmt args of
        Inl e \<Rightarrow> Faulted e
      | Inr message \<Rightarrow> Returned Void (log_message LL_ERROR message w))"

definition emergency :: "'w private_log \<Rightarrow> string \<Rightarrow> arg list \<Rightarrow> 'w \<Rightarrow> 'w outcome" where
  "emergency log_message fmt args w =
     (case format fmt args of
        Inl e \<Rightarrow> Faulted e
      | Inr message \<Rightarrow> Exited OPERATOR_FAILURE (log_message LL_EMERGENCY message w))"

text \<open>The public template \<open>log(level, fmt, args...)\<close>: "custom log message and return message".\<close>

definition log :: "'w private_log \<Rightarrow> LoggerLevel \<Rightarrow> string \<Rightarrow> arg list \<Rightarrow> 'w \<Rightarrow> 'w outcome" where
  "log log_message level fmt args w =
     (case format fmt args of
        Inl e \<Rightarrow> Faulted e
      | Inr message \<Rightarrow>
          (let w' = log_message level message w in
           if level = LL_EMERGENCY then Exited OPERATOR_FAILURE w'
           else Returned (Text message) w'))"

text \<open>
  Two private logs to run the entry points with; the destination is the list of the
  messages written. The first writes every message, the second none.
\<close>

definition write_always :: "string list private_log" where
  "write_always level message w = w @ [message]"

definition write_never :: "string list private_log" where
  "write_never level message w = w"

section \<open>The logger registry\<close>

text \<open>
  \<open>static std::map<LoggerName, SsLoggerPtr> _loggers\<close> with \<open>LoggerName = const char *\<close> and
  \<open>SsLoggerPtr = std::shared_ptr<SsLogger>\<close>. The map has no comparator of its own, so a
  key is the pointer value (the address of the name's characters), and an entry is the
  address of the shared logger object.
\<close>

type_synonym LoggerName = nat

type_synonym SsLoggerPtr = nat

type_synonym registry = "LoggerName \<rightharpoonup> SsLoggerPtr"

text \<open>
  Modelled from the spec: \<open>SsLogger::addLogger\<close> is declared in the class and defined
  elsewhere. It "inserts or replaces the entry for \<open>name\<close>".
\<close>

definition addLogger :: "LoggerName \<Rightarrow> SsLoggerPtr \<Rightarrow> registry \<Rightarrow> registry" where
  "addLogger name logger loggers = loggers(name \<mapsto> logger)"

text \<open>
  Modelled from the spec: \<open>SsLogger::removeLogger\<close> is declared in the class and defined
  elsewhere. It "removes the entry, returning whether an entry existed".
\<close>

definition removeLogger :: "LoggerName \<Rightarrow> registry \<Rightarrow> bool \<times> registry" where
  "removeLogger name loggers = (loggers name \<noteq> None, loggers(name := None))"

section \<open>Basic facts about the pieces\<close>

subsection \<open>\<open>visit\<close> and the inner loop\<close>

lemma skip_alnum_gt: "skip_alnum fmt i = Inr j \<Longrightarrow> i < j"
proof (induction fmt i rule: skip_alnum.induct)
  case (1 fmt i)
  then show ?case
    by (subst (asm) (2) skip_alnum.simps) (auto split: option.splits if_splits)
qed

lemma output_ge: "output_at fmt tuple i s = Inr (i', s') \<Longrightarrow> i \<le> i'"
  by (auto simp: output_at_def split: if_splits sum.splits prod.splits dest!: skip_alnum_gt)

lemma format_body_ge: "format_body fmt tuple i s = Inr (i', s') \<Longrightarrow> i \<le> i'"
  by (auto simp: format_body_def split: if_splits option.splits dest!: output_ge)

lemma visit_in_range: "idx < length tuple \<Longrightarrow> visit tuple idx func s = Inr (func (tuple ! idx) s)"
proof -
  have "idx < I \<Longrightarrow> VisitImpl I tuple idx func s = Inr (func (tuple ! idx) s)" for I
    by (induction I) auto
  then show "idx < length tuple \<Longrightarrow> ?thesis" by (simp add: visit_def)
qed

lemma visit_out_of_range: "length tuple \<le> idx \<Longrightarrow> visit tuple idx func s = Inl AssertionFailed"
proof -
  have "I \<le> idx \<Longrightarrow> VisitImpl I tuple idx func s = Inl AssertionFailed" for I
    by (induction I) auto
  then show "length tuple \<le> idx \<Longrightarrow> ?thesis" by (simp add: visit_def)
qed

lemma isalnum_NUL [simp]: "\<not> isalnum NUL"
  by (simp add: isalnum_def NUL_def)

lemma isalnum_percent [simp]: "\<not> isalnum CHR ''%''"
  by (simp add: isalnum_def)

lemma skip_alnum_spec:
  "skip_alnum fmt i = Inr j \<Longrightarrow>
     i < j \<and> j \<le> length fmt \<and> (\<forall>k. i < k \<and> k < j \<longrightarrow> isalnum (fmt ! k)) \<and>
     (j < length fmt \<longrightarrow> \<not> isalnum (fmt ! j))"
proof (induction fmt i rule: skip_alnum.induct)
  case (1 fmt i)
  from "1.prems" obtain c where c: "char_at fmt (Suc i) = Some c"
    by (subst (asm) skip_alnum.simps) (auto split: option.splits)
  show ?case
  proof (cases "isalnum c")
    case True
    with c "1.prems" have rec: "skip_alnum fmt (Suc i) = Inr j"
      by (subst (asm) skip_alnum.simps) simp
    from True c have ci: "Suc i < length fmt" "fmt ! Suc i = c"
      by (auto simp: char_at_def split: if_splits)
    from "1.IH" [OF c True rec] have ih: "Suc i < j" "j \<le> length fmt"
      "\<forall>k. Suc i < k \<and> k < j \<longrightarrow> isalnum (fmt ! k)" "j < length fmt \<longrightarrow> \<not> isalnum (fmt ! j)"
      by auto
    have "\<forall>k. i < k \<and> k < j \<longrightarrow> isalnum (fmt ! k)"
    proof (intro allI impI)
      fix k assume "i < k \<and> k < j"
      then show "isalnum (fmt ! k)"
        using ih(3) ci True by (cases "k = Suc i") auto
    qed
    with ih show ?thesis by auto
  next
    case False
    with c "1.prems" have j: "j = Suc i"
      by (subst (asm) skip_alnum.simps) simp
    from c have "Suc i \<le> length fmt" "Suc i < length fmt \<longrightarrow> fmt ! Suc i = c"
      by (auto simp: char_at_def split: if_splits)
    with False j show ?thesis by auto
  qed
qed

lemma skip_alnum_total: "i < length fmt \<Longrightarrow> \<exists>j. skip_alnum fmt i = Inr j"
proof (induction fmt i rule: skip_alnum.induct)
  case (1 fmt i)
  from "1.prems" have "Suc i \<le> length fmt" by simp
  then obtain c where c: "char_at fmt (Suc i) = Some c"
    by (cases "Suc i < length fmt") (simp_all add: char_at_def)
  show ?case
  proof (cases "isalnum c")
    case True
    with c have "Suc i < length fmt"
      by (auto simp: char_at_def split: if_splits)
    from "1.IH" [OF c True this] obtain j where "skip_alnum fmt (Suc i) = Inr j" ..
    with c True show ?thesis by (subst skip_alnum.simps) simp
  next
    case False
    with c show ?thesis by (subst skip_alnum.simps) simp
  qed
qed


lemma skip_alnum_not_assert: "skip_alnum fmt i \<noteq> Inl AssertionFailed"
proof (induction fmt i rule: skip_alnum.induct)
  case (1 fmt i)
  then show ?case
    by (subst skip_alnum.simps) (auto split: option.splits)
qed

subsection \<open>One pass of the loop\<close>

lemma format_loop_done: "length fmt \<le> i \<Longrightarrow> format_loop fmt tuple i s = Inr s"
  by (subst format_loop.simps) (simp add: strlen_def)

lemma format_loop_step:
  "i < length fmt \<Longrightarrow>
   format_loop fmt tuple i s =
     (case format_body fmt tuple i s of
        Inl e \<Rightarrow> Inl e
      | Inr (i', s') \<Rightarrow> format_loop fmt tuple (Suc i') s')"
  by (subst format_loop.simps) (simp add: strlen_def)

lemma format_body_literal:
  "fmt ! i \<noteq> CHR ''%'' \<Longrightarrow>
   format_body fmt tuple i s = Inr (i, s\<lparr>ss := write_chars [fmt ! i] (ss s)\<rparr>)"
  by (simp add: format_body_def)

lemma format_body_escape:
  "fmt ! i = CHR ''%'' \<Longrightarrow> char_at fmt (i + 1) = Some CHR ''%'' \<Longrightarrow>
   format_body fmt tuple i s = Inr (i + 1, s\<lparr>ss := write_chars ''%'' (ss s)\<rparr>)"
  by (simp add: format_body_def)

lemma write_chars_write_chars:
  "write_chars b (write_chars a out) = write_chars (a @ b) out"
  by (simp add: write_chars_def)

lemma write_chars_Nil: "write_chars [] out = out"
  by (simp add: write_chars_def)

lemma index_case_x [simp]: "index (case_x s) = index s"
  by (simp add: case_x_def setFlag_def)

lemma buf_case_x [simp]: "buf (ss (case_x s)) = buf (ss s) @ ''0x''"
  by (simp add: case_x_def setFlag_def setf_masked_def write_chars_def)

lemma flags_case_x: "flags (ss (case_x s)) = (flags (ss s) - basefield) \<union> {hex}"
  by (simp add: case_x_def setFlag_def setf_masked_def write_chars_def basefield_def)


lemma case_x_with_prefix: "case_x (with_prefix b s) = with_prefix b (case_x s)"
  by (simp add: case_x_def setFlag_def setf_masked_def write_chars_def with_prefix_def)

lemma format_loop_no_percent:
  "CHR ''%'' \<notin> set (drop i fmt) \<Longrightarrow>
   format_loop fmt tuple i s = Inr (s\<lparr>ss := write_chars (drop i fmt) (ss s)\<rparr>)"
proof (induction "length fmt - i" arbitrary: i s)
  case 0
  then show ?case by (simp add: format_loop_done write_chars_Nil)
next
  case (Suc n)
  then have i: "i < length fmt" by simp
  then have d: "drop i fmt = fmt ! i # drop (Suc i) fmt"
    by (simp add: Cons_nth_drop_Suc)
  with Suc.prems have np: "fmt ! i \<noteq> CHR ''%''" and rest: "CHR ''%'' \<notin> set (drop (Suc i) fmt)"
    by auto
  from Suc.hyps(2) i have n: "n = length fmt - Suc i" by simp
  show ?case
    by (simp add: format_loop_step [OF i] format_body_literal [OF np] Suc.hyps(1) [OF n rest] d
        write_chars_write_chars)
qed

lemma buf_printer_call:
  "buf (fst (printer_call v (out, p))) = buf out @ show_arg (flags out) v"
  by (simp add: printer_call_def put_def write_chars_def setf_def Let_def)

lemma char_at_Some_percent:
  "char_at fmt k = Some CHR ''%'' \<longleftrightarrow> k < length fmt \<and> fmt ! k = CHR ''%''"
  by (auto simp: char_at_def NUL_def)

lemma char_at_in_range: "k < length fmt \<Longrightarrow> char_at fmt k = Some (fmt ! k)"
  by (simp add: char_at_def)

lemma output_at_exhausted:
  "length tuple \<le> index s \<Longrightarrow>
   \<exists>s'. output_at fmt tuple i s = Inr (i, s') \<and> index s' = index s \<and>
        buf (ss s') = buf (ss s) @ ''%''"
  by (simp add: output_at_def printer_call_def put_def write_chars_def setf_def Let_def)

lemma output_at_arg:
  "index s < length tuple \<Longrightarrow> skip_alnum fmt i = Inr j \<Longrightarrow>
   output_at fmt tuple i s =
     Inr (j - 1, s\<lparr>ss := fst (printer_call (tuple ! index s) (ss s, printer s)),
                   index := Suc (index s)\<rparr>)"
  by (simp add: output_at_def visit_in_range)

subsection \<open>No failed assertion\<close>

lemma output_at_not_assert: "output_at fmt tuple i s \<noteq> Inl AssertionFailed"
  by (auto simp: output_at_def visit_in_range skip_alnum_not_assert
      split: sum.splits prod.splits)

lemma format_body_not_assert: "format_body fmt tuple i s \<noteq> Inl AssertionFailed"
  by (auto simp: format_body_def output_at_not_assert split: option.splits)

lemma format_loop_not_assert: "format_loop fmt tuple i s \<noteq> Inl AssertionFailed"
proof (induction fmt tuple i s rule: format_loop.induct)
  case (1 fmt tuple i s)
  show ?case
  proof (cases "i < strlen fmt")
    case False
    then show ?thesis by (subst format_loop.simps) simp
  next
    case True
    show ?thesis
    proof (cases "format_body fmt tuple i s")
      case (Inl e)
      with True format_body_not_assert [of fmt tuple i s] show ?thesis
        by (subst format_loop.simps) auto
    next
      case (Inr r)
      obtain i' s' where r: "r = (i', s')" by (cases r)
      from "1.IH" [OF True Inr r [symmetric]] True Inr r show ?thesis
        by (subst format_loop.simps) simp
    qed
  qed
qed

subsection \<open>Runs with no argument left\<close>

lemma format_body_exhausted:
  assumes "length tuple \<le> index s" and "i < length fmt"
  shows "\<exists>i' s'. format_body fmt tuple i s = Inr (i', s') \<and> index s' = index s"
proof (cases "fmt ! i = CHR ''%''")
  case False
  then show ?thesis by (simp add: format_body_literal)
next
  case True
  from assms(2) obtain c where c: "char_at fmt (i + 1) = Some c"
    by (cases "i + 1 < length fmt") (simp_all add: char_at_def)
  from output_at_exhausted [OF assms(1), of fmt "i + 1"]
  have o1: "\<exists>s'. output_at fmt tuple (i + 1) s = Inr (i + 1, s') \<and> index s' = index s"
    by auto
  from output_at_exhausted [of tuple "case_x s" fmt "i + 1"] assms(1)
  have o2: "\<exists>s'. output_at fmt tuple (i + 1) (case_x s) = Inr (i + 1, s') \<and> index s' = index s"
    by auto
  from True c o1 o2 show ?thesis
    by (auto simp: format_body_def)
qed

lemma format_loop_exhausted:
  "length tuple \<le> index s \<Longrightarrow> \<exists>s'. format_loop fmt tuple i s = Inr s'"
proof (induction "length fmt - i" arbitrary: i s rule: less_induct)
  case less
  show ?case
  proof (cases "i < length fmt")
    case False
    then show ?thesis by (simp add: format_loop_done)
  next
    case True
    from format_body_exhausted [OF less.prems True]
    obtain i' s' where b: "format_body fmt tuple i s = Inr (i', s')" and ix: "index s' = index s"
      by blast
    from b have "i \<le> i'" by (rule format_body_ge)
    with True have "length fmt - Suc i' < length fmt - i" by simp
    moreover from less.prems ix have "length tuple \<le> index s'" by simp
    ultimately obtain s'' where "format_loop fmt tuple (Suc i') s' = Inr s''"
      using less.hyps [of "Suc i'" s'] by blast
    with b True show ?thesis by (simp add: format_loop_step)
  qed
qed

subsection \<open>Counting substitution points\<close>

lemma substitution_points_literal:
  "c \<noteq> CHR ''%'' \<Longrightarrow> substitution_points (c # cs) = substitution_points cs"
  by (cases cs) simp_all

lemma substitution_points_skip:
  "a \<le> b \<Longrightarrow> b \<le> length fmt \<Longrightarrow> \<forall>k. a \<le> k \<and> k < b \<longrightarrow> fmt ! k \<noteq> CHR ''%'' \<Longrightarrow>
   substitution_points (drop a fmt) = substitution_points (drop b fmt)"
proof (induction "b - a" arbitrary: a)
  case 0
  then show ?case by simp
next
  case (Suc n)
  then have a: "a < b" "a < length fmt" by simp_all
  then have d: "drop a fmt = fmt ! a # drop (Suc a) fmt"
    by (simp add: Cons_nth_drop_Suc)
  from Suc.prems a have na: "fmt ! a \<noteq> CHR ''%''" by simp
  from Suc.hyps(2) have n: "n = b - Suc a" by simp
  from Suc.prems a have "substitution_points (drop (Suc a) fmt) = substitution_points (drop b fmt)"
    by (intro Suc.hyps(1) [OF n]) auto
  with d na show ?case by (simp add: substitution_points_literal)
qed

lemma substitution_points_at_percent:
  assumes "i < length fmt" and "fmt ! i = CHR ''%''" and "i + 1 < length fmt \<longrightarrow> fmt ! (i + 1) \<noteq> CHR ''%''"
  shows "substitution_points (drop i fmt) = Suc (substitution_points (drop (i + 2) fmt))"
proof (cases "i + 1 < length fmt")
  case True
  then have "drop i fmt = fmt ! i # fmt ! (i + 1) # drop (i + 2) fmt"
    using Cons_nth_drop_Suc [of i fmt] Cons_nth_drop_Suc [of "i + 1" fmt] by simp
  with assms True show ?thesis by simp
next
  case False
  with assms(1) have "drop i fmt = [fmt ! i]" "drop (i + 2) fmt = []"
    using Cons_nth_drop_Suc [of i fmt] by simp_all
  with assms(2) show ?thesis by simp
qed

lemma format_body_substitution:
  assumes "i < length fmt" and "fmt ! i = CHR ''%''" and "char_at fmt (i + 1) = Some c"
    and "c \<noteq> CHR ''%''"
  shows "format_body fmt tuple i s =
     output_at fmt tuple (i + 1)
       (if c = CHR ''x''
        then case_x s else s)"
  using assms by (simp add: format_body_def)

lemma format_body_points:
  assumes i: "i < length fmt" and b: "format_body fmt tuple i s = Inr (i', s')"
  shows "(index s' = index s \<and>
            substitution_points (drop i fmt) = substitution_points (drop (Suc i') fmt)) \<or>
         (fmt ! i = CHR ''%'' \<and>
            substitution_points (drop i fmt) = Suc (substitution_points (drop (Suc i') fmt)) \<and>
            index s' = (if index s < length tuple then Suc (index s) else index s))"
proof (cases "fmt ! i = CHR ''%''")
  case False
  from i have "drop i fmt = fmt ! i # drop (Suc i) fmt"
    by (simp add: Cons_nth_drop_Suc)
  with False b show ?thesis
    by (auto simp: format_body_literal substitution_points_literal)
next
  case True
  from i obtain c where c: "char_at fmt (i + 1) = Some c"
    by (cases "i + 1 < length fmt") (simp_all add: char_at_def)
  show ?thesis
  proof (cases "c = CHR ''%''")
    case pc: True
    with c have i1: "i + 1 < length fmt" "fmt ! (i + 1) = CHR ''%''"
      by (simp_all add: char_at_Some_percent)
    then have "drop i fmt = fmt ! i # fmt ! (i + 1) # drop (i + 2) fmt"
      using Cons_nth_drop_Suc [of i fmt] Cons_nth_drop_Suc [of "i + 1" fmt] by simp
    with True i1 have "substitution_points (drop i fmt) = substitution_points (drop (i + 2) fmt)"
      by simp
    moreover from b True c pc have "i' = i + 1" "index s' = index s"
      by (auto simp: format_body_escape)
    ultimately show ?thesis by simp
  next
    case npc: False
    define t where "t = (if c = CHR ''x''
        then case_x s else s)"
    have t: "index t = index s" by (simp add: t_def)
    from b format_body_substitution [OF i True c npc, of tuple s]
    have o: "output_at fmt tuple (i + 1) t = Inr (i', s')" by (simp add: t_def)
    from c npc have nx: "i + 1 < length fmt \<longrightarrow> fmt ! (i + 1) \<noteq> CHR ''%''"
      by (auto simp: char_at_def)
    note sp = substitution_points_at_percent [OF i True nx]
    show ?thesis
    proof (cases "index t < length tuple")
      case arg: True
      from o arg obtain j where j: "skip_alnum fmt (i + 1) = Inr j"
        by (auto simp: output_at_def visit_in_range split: sum.splits)
      from o output_at_arg [OF arg j] have r: "i' = j - 1" "index s' = Suc (index t)"
        by auto
      from skip_alnum_spec [OF j] have js: "i + 1 < j" "j \<le> length fmt"
        "\<forall>k. i + 1 < k \<and> k < j \<longrightarrow> isalnum (fmt ! k)" by auto
      have "\<forall>k. i + 2 \<le> k \<and> k < j \<longrightarrow> fmt ! k \<noteq> CHR ''%''"
      proof (intro allI impI)
        fix k assume "i + 2 \<le> k \<and> k < j"
        with js(3) have "isalnum (fmt ! k)" by simp
        then show "fmt ! k \<noteq> CHR ''%''" by (auto simp: isalnum_percent)
      qed
      with js have "substitution_points (drop (i + 2) fmt) = substitution_points (drop j fmt)"
        by (intro substitution_points_skip) simp_all
      with sp r js(1) arg t True show ?thesis by simp
    next
      case noarg: False
      then have "length tuple \<le> index t" by simp
      from output_at_exhausted [OF this, of fmt "i + 1"] o
      have "i' = i + 1" "index s' = index t" by auto
      with sp noarg t True show ?thesis by simp
    qed
  qed
qed

lemma format_loop_index:
  "format_loop fmt tuple i s = Inr s' \<Longrightarrow> index s \<le> length tuple \<Longrightarrow>
   index s' = min (index s + substitution_points (drop i fmt)) (length tuple)"
proof (induction "length fmt - i" arbitrary: i s rule: less_induct)
  case less
  show ?case
  proof (cases "i < length fmt")
    case False
    with less.prems show ?thesis by (simp add: format_loop_done)
  next
    case True
    from less.prems(1) True obtain i1 s1 where
      b: "format_body fmt tuple i s = Inr (i1, s1)" and
      l: "format_loop fmt tuple (Suc i1) s1 = Inr s'"
      by (auto simp: format_loop_step split: sum.splits)
    from b have "i \<le> i1" by (rule format_body_ge)
    with True have m: "length fmt - Suc i1 < length fmt - i" by simp
    from format_body_points [OF True b] less.prems(2)
    have s1: "index s1 \<le> length tuple" by auto
    from less.hyps [OF m l s1]
    have ih: "index s' = min (index s1 + substitution_points (drop (Suc i1) fmt)) (length tuple)" .
    from format_body_points [OF True b] less.prems(2) ih show ?thesis
      by (auto split: if_splits)
  qed
qed

subsection \<open>Arguments behind the last one needed\<close>

lemma visit_append:
  "idx < length args \<Longrightarrow> visit (args @ extra) idx func s = visit args idx func s"
  by (simp add: visit_in_range nth_append)

lemma output_at_append:
  "index s < length args \<Longrightarrow> output_at fmt (args @ extra) i s = output_at fmt args i s"
  by (simp add: output_at_def visit_append)

lemma format_body_append:
  assumes "i < length fmt"
    and "index s + substitution_points (drop i fmt) \<le> length args"
  shows "format_body fmt (args @ extra) i s = format_body fmt args i s"
proof (cases "fmt ! i = CHR ''%''")
  case False
  then show ?thesis by (simp add: format_body_literal)
next
  case True
  from assms(1) obtain c where c: "char_at fmt (i + 1) = Some c"
    by (cases "i + 1 < length fmt") (simp_all add: char_at_def)
  show ?thesis
  proof (cases "c = CHR ''%''")
    case True
    with \<open>fmt ! i = CHR ''%''\<close> c show ?thesis by (simp add: format_body_escape)
  next
    case False
    from c False have "i + 1 < length fmt \<longrightarrow> fmt ! (i + 1) \<noteq> CHR ''%''"
      by (auto simp: char_at_def)
    from substitution_points_at_percent [OF assms(1) True this] assms(2)
    have "index s < length args" by simp
    then show ?thesis
      by (simp add: format_body_substitution [OF assms(1) True c False] output_at_append)
  qed
qed

lemma format_loop_append:
  "index s + substitution_points (drop i fmt) \<le> length args \<Longrightarrow>
   format_loop fmt (args @ extra) i s = format_loop fmt args i s"
proof (induction "length fmt - i" arbitrary: i s rule: less_induct)
  case less
  show ?case
  proof (cases "i < length fmt")
    case False
    then show ?thesis by (simp add: format_loop_done)
  next
    case True
    note eq = format_body_append [OF True less.prems, of extra]
    show ?thesis
    proof (cases "format_body fmt args i s")
      case (Inl e)
      with eq True show ?thesis by (simp add: format_loop_step)
    next
      case (Inr r)
      obtain i1 s1 where r: "r = (i1, s1)" by (cases r)
      with Inr have b: "format_body fmt args i s = Inr (i1, s1)" by simp
      from b have "i \<le> i1" by (rule format_body_ge)
      with True have m: "length fmt - Suc i1 < length fmt - i" by simp
      from format_body_points [OF True b] less.prems
      have "index s1 + substitution_points (drop (Suc i1) fmt) \<le> length args"
        by (auto split: if_splits)
      from less.hyps [OF m this] b eq True show ?thesis
        by (simp add: format_loop_step)
    qed
  qed
qed

subsection \<open>Runs that return, and the one that does not\<close>

text \<open>
  The only read outside the format string is that of \<open>fmt[strlen(fmt) + 1]\<close>, made by
  the inner loop when a \<open>%\<close> is the last character and an argument is still left.
\<close>

lemma output_at_total:
  assumes "i < length fmt"
  shows "\<exists>i' s'. output_at fmt tuple i s = Inr (i', s')"
proof (cases "index s < length tuple")
  case True
  from skip_alnum_total [OF assms] obtain j where "skip_alnum fmt i = Inr j" ..
  from output_at_arg [OF True this] show ?thesis by blast
next
  case False
  then have "length tuple \<le> index s" by simp
  from output_at_exhausted [OF this, of fmt i] show ?thesis by blast
qed

lemma format_body_total:
  assumes "i < length fmt" and "i + 1 < length fmt \<or> fmt ! i \<noteq> CHR ''%''"
  shows "\<exists>i' s'. format_body fmt tuple i s = Inr (i', s')"
proof (cases "fmt ! i = CHR ''%''")
  case False
  then show ?thesis by (simp add: format_body_literal)
next
  case True
  with assms(2) have i1: "i + 1 < length fmt" by simp
  then have c: "char_at fmt (i + 1) = Some (fmt ! (i + 1))"
    by (simp add: char_at_def)
  show ?thesis
  proof (cases "fmt ! (i + 1) = CHR ''%''")
    case pc: True
    with c True show ?thesis by (simp add: format_body_escape)
  next
    case False
    from format_body_substitution [OF assms(1) True c False, of tuple s]
      output_at_total [OF i1] show ?thesis by simp
  qed
qed

lemma format_loop_total:
  assumes "fmt = [] \<or> last fmt \<noteq> CHR ''%''"
  shows "\<exists>s'. format_loop fmt tuple i s = Inr s'"
proof (induction "length fmt - i" arbitrary: i s rule: less_induct)
  case less
  show ?case
  proof (cases "i < length fmt")
    case False
    then show ?thesis by (simp add: format_loop_done)
  next
    case True
    have "i + 1 < length fmt \<or> fmt ! i \<noteq> CHR ''%''"
    proof (cases "i + 1 < length fmt")
      case False
      with True have "i = length fmt - 1" and "fmt \<noteq> []" by auto
      with assms show ?thesis by (simp add: last_conv_nth)
    qed simp
    from format_body_total [OF True this]
    obtain i' s' where b: "format_body fmt tuple i s = Inr (i', s')" by blast
    from b have "i \<le> i'" by (rule format_body_ge)
    with True have "length fmt - Suc i' < length fmt - i" by simp
    then obtain s'' where "format_loop fmt tuple (Suc i') s' = Inr s''"
      using less.hyps [of "Suc i'" s'] by blast
    with b True show ?thesis by (simp add: format_loop_step)
  qed
qed


subsection \<open>Moving a run along the format string\<close>

lemma char_at_append: "char_at (pre @ fmt) (length pre + k) = char_at fmt k"
  by (simp add: char_at_def nth_append)

lemma skip_alnum_append:
  "skip_alnum (pre @ fmt) (length pre + k) =
     (case skip_alnum fmt k of Inl e \<Rightarrow> Inl e | Inr j \<Rightarrow> Inr (length pre + j))"
proof (induction fmt k rule: skip_alnum.induct)
  case (1 fmt k)
  have c: "char_at (pre @ fmt) (Suc (length pre + k)) = char_at fmt (Suc k)"
    using char_at_append [of pre fmt "Suc k"] by simp
  show ?case
  proof (cases "char_at fmt (Suc k)")
    case None
    with c show ?thesis
      by (subst skip_alnum.simps, subst (2) skip_alnum.simps) simp
  next
    case (Some ch)
    show ?thesis
    proof (cases "isalnum ch")
      case True
      from "1.IH" [OF Some True] have "skip_alnum (pre @ fmt) (Suc (length pre + k)) =
          (case skip_alnum fmt (Suc k) of Inl e \<Rightarrow> Inl e | Inr j \<Rightarrow> Inr (length pre + j))"
        by simp
      with c Some True show ?thesis
        by (subst skip_alnum.simps, subst (2) skip_alnum.simps) simp
    next
      case False
      with c Some show ?thesis
        by (subst skip_alnum.simps, subst (2) skip_alnum.simps) simp
    qed
  qed
qed

lemma output_at_shift:
  "output_at (pre @ fmt) tuple (length pre + k) s = behind (length pre) (output_at fmt tuple k s)"
proof (cases "index s < length tuple")
  case True
  show ?thesis
  proof (cases "skip_alnum fmt k")
    case (Inl e)
    with True show ?thesis
      by (simp add: output_at_def visit_in_range skip_alnum_append behind_def)
  next
    case (Inr j)
    from skip_alnum_gt [OF Inr] have "length pre + j - 1 = length pre + (j - 1)" by simp
    with True Inr show ?thesis
      by (simp add: output_at_def visit_in_range skip_alnum_append behind_def)
  qed
next
  case False
  then show ?thesis
    by (simp add: output_at_def behind_def split: prod.splits)
qed

lemma format_body_shift:
  assumes "i < length fmt"
  shows "format_body (pre @ fmt) tuple (length pre + i) s =
         behind (length pre) (format_body fmt tuple i s)"
proof -
  have n: "(pre @ fmt) ! (length pre + i) = fmt ! i"
    by (simp add: nth_append)
  have c: "char_at (pre @ fmt) (length pre + i + 1) = char_at fmt (i + 1)"
    using char_at_append [of pre fmt "i + 1"] by (simp add: add.assoc)
  have o: "output_at (pre @ fmt) tuple (length pre + i + 1) t =
      behind (length pre) (output_at fmt tuple (i + 1) t)" for t
    using output_at_shift [of pre fmt tuple "i + 1" t] by (simp add: add.assoc)
  show ?thesis
    unfolding format_body_def n c o
    by (simp add: behind_def split: option.splits)
qed

lemma format_loop_shift:
  "format_loop (pre @ fmt) tuple (length pre + i) s = format_loop fmt tuple i s"
proof (induction "length fmt - i" arbitrary: i s rule: less_induct)
  case less
  show ?case
  proof (cases "i < length fmt")
    case False
    then show ?thesis by (simp add: format_loop_done)
  next
    case True
    then have l: "length pre + i < length (pre @ fmt)" by simp
    show ?thesis
    proof (cases "format_body fmt tuple i s")
      case (Inl e)
      with True show ?thesis
        by (simp add: format_loop_step [OF l] format_loop_step [OF True]
            format_body_shift behind_def)
    next
      case (Inr r)
      obtain i' s' where r: "r = (i', s')" by (cases r)
      with Inr have b: "format_body fmt tuple i s = Inr (i', s')" by simp
      from b have "i \<le> i'" by (rule format_body_ge)
      with True have "length fmt - Suc i' < length fmt - i" by simp
      from less.hyps [OF this, of s']
      have "format_loop (pre @ fmt) tuple (Suc (length pre + i')) s' =
            format_loop fmt tuple (Suc i') s'" by simp
      with b True show ?thesis
        by (simp add: format_loop_step [OF l] format_loop_step [OF True]
            format_body_shift behind_def)
    qed
  qed
qed

lemma format_loop_literal_prefix:
  assumes "CHR ''%'' \<notin> set pre"
  shows "format_loop (pre @ fmt) tuple 0 s = format_loop fmt tuple 0 (s\<lparr>ss := write_chars pre (ss s)\<rparr>)"
  using assms
proof (induction pre arbitrary: s fmt rule: rev_induct)
  case Nil
  then show ?case by (simp add: write_chars_Nil)
next
  case (snoc c pre)
  then have np: "CHR ''%'' \<notin> set pre" and c: "c \<noteq> CHR ''%''" by auto
  let ?t = "s\<lparr>ss := write_chars pre (ss s)\<rparr>"
  have "format_loop ((pre @ [c]) @ fmt) tuple 0 s = format_loop (pre @ (c # fmt)) tuple 0 s"
    by simp
  also have "\<dots> = format_loop (c # fmt) tuple 0 ?t"
    by (rule snoc.IH [OF np])
  also have "\<dots> = format_loop (c # fmt) tuple (Suc 0) (?t\<lparr>ss := write_chars [c] (ss ?t)\<rparr>)"
    using c by (simp add: format_loop_step format_body_literal)
  also have "\<dots> = format_loop fmt tuple 0 (?t\<lparr>ss := write_chars [c] (ss ?t)\<rparr>)"
    using format_loop_shift [of "[c]" fmt tuple 0] by simp
  also have "?t\<lparr>ss := write_chars [c] (ss ?t)\<rparr> = s\<lparr>ss := write_chars (pre @ [c]) (ss s)\<rparr>"
    by (simp add: write_chars_write_chars)
  finally show ?case .
qed

subsection \<open>Text already in the stream\<close>

lemma printer_call_prefix:
  "printer_call v (out\<lparr>buf := b @ buf out\<rparr>, p) =
     (case printer_call v (out, p) of (out', p') \<Rightarrow> (out'\<lparr>buf := b @ buf out'\<rparr>, p'))"
  by (simp add: printer_call_def put_def write_chars_def setf_def Let_def)

lemma output_at_prefix:
  "output_at fmt tuple i (with_prefix b s) =
     (case output_at fmt tuple i s of Inl e \<Rightarrow> Inl e | Inr (i', s') \<Rightarrow> Inr (i', with_prefix b s'))"
proof (cases "index s < length tuple")
  case True
  then show ?thesis
    by (simp add: output_at_def visit_in_range with_prefix_def printer_call_prefix
        split: sum.splits prod.splits)
next
  case False
  then show ?thesis
    by (simp add: output_at_def with_prefix_def printer_call_prefix split: prod.splits)
qed

lemma format_body_prefix:
  "format_body fmt tuple i (with_prefix b s) =
     (case format_body fmt tuple i s of Inl e \<Rightarrow> Inl e | Inr (i', s') \<Rightarrow> Inr (i', with_prefix b s'))"
proof -
  note x = case_x_with_prefix
  have l: "(with_prefix b s)\<lparr>ss := write_chars [c] (ss (with_prefix b s))\<rparr> =
      with_prefix b (s\<lparr>ss := write_chars [c] (ss s)\<rparr>)" for c
    by (simp add: with_prefix_def write_chars_def)
  show ?thesis
    unfolding format_body_def x l
    by (simp add: output_at_prefix split: option.splits)
qed

lemma format_loop_prefix:
  "format_loop fmt tuple i (with_prefix b s) =
     (case format_loop fmt tuple i s of Inl e \<Rightarrow> Inl e | Inr s' \<Rightarrow> Inr (with_prefix b s'))"
proof (induction "length fmt - i" arbitrary: i s rule: less_induct)
  case less
  show ?case
  proof (cases "i < length fmt")
    case False
    then show ?thesis by (simp add: format_loop_done)
  next
    case True
    show ?thesis
    proof (cases "format_body fmt tuple i s")
      case (Inl e)
      with True show ?thesis
        by (simp add: format_loop_step format_body_prefix)
    next
      case (Inr r)
      obtain i' s' where r: "r = (i', s')" by (cases r)
      with Inr have b: "format_body fmt tuple i s = Inr (i', s')" by simp
      from b have "i \<le> i'" by (rule format_body_ge)
      with True have "length fmt - Suc i' < length fmt - i" by simp
      from less.hyps [OF this, of s'] b True show ?thesis
        by (simp add: format_loop_step format_body_prefix)
    qed
  qed
qed

lemma format_literal_prefix:
  assumes "CHR ''%'' \<notin> set pre"
  shows "format (pre @ fmt) args =
         (case format fmt args of Inl e \<Rightarrow> Inl e | Inr out \<Rightarrow> Inr (pre @ out))"
proof -
  have "format_init\<lparr>ss := write_chars pre (ss format_init)\<rparr> = with_prefix pre format_init"
    by (simp add: with_prefix_def write_chars_def format_init_def stringstream_def)
  with format_loop_literal_prefix [OF assms, of fmt args format_init]
  have "format_loop (pre @ fmt) args 0 format_init =
        format_loop fmt args 0 (with_prefix pre format_init)" by simp
  also note format_loop_prefix
  finally show ?thesis
    by (cases "format_loop fmt args 0 format_init") (simp_all add: format_def with_prefix_def)
qed

lemma format_escape_head:
  "format (CHR ''%'' # CHR ''%'' # fmt) args =
     (case format fmt args of Inl e \<Rightarrow> Inl e | Inr out \<Rightarrow> Inr (CHR ''%'' # out))"
proof -
  let ?f = "CHR ''%'' # CHR ''%'' # fmt"
  have c: "char_at ?f (0 + 1) = Some CHR ''%''"
    by (simp add: char_at_def)
  have "format_loop ?f args 0 format_init =
      format_loop ?f args (Suc (Suc 0)) (format_init\<lparr>ss := write_chars ''%'' (ss format_init)\<rparr>)"
    using format_body_escape [of ?f 0 args format_init] c
    by (simp add: format_loop_step)
  also have "\<dots> = format_loop fmt args 0 (format_init\<lparr>ss := write_chars ''%'' (ss format_init)\<rparr>)"
    using format_loop_shift [of "''%%''" fmt args 0] by simp
  also have "format_init\<lparr>ss := write_chars ''%'' (ss format_init)\<rparr> = with_prefix ''%'' format_init"
    by (simp add: with_prefix_def write_chars_def format_init_def stringstream_def)
  also note format_loop_prefix
  finally show ?thesis
    by (cases "format_loop fmt args 0 format_init") (simp_all add: format_def with_prefix_def)
qed

subsection \<open>The rest of a run\<close>

lemma format_loop_drop:
  "j \<le> length fmt \<Longrightarrow> format_loop fmt tuple j s = format_loop (drop j fmt) tuple 0 s"
  using format_loop_shift [of "take j fmt" "drop j fmt" tuple 0 s] by simp

lemma skip_alnum_dropWhile:
  assumes "skip_alnum fmt i = Inr j"
  shows "drop j fmt = dropWhile isalnum (drop (Suc i) fmt)"
proof -
  from skip_alnum_spec [OF assms] have j: "i < j" "j \<le> length fmt"
    "\<forall>k. i < k \<and> k < j \<longrightarrow> isalnum (fmt ! k)" "j < length fmt \<longrightarrow> \<not> isalnum (fmt ! j)"
    by auto
  define mid where "mid = take (j - Suc i) (drop (Suc i) fmt)"
  from j(1) have split: "drop (Suc i) fmt = mid @ drop j fmt"
    unfolding mid_def
    by (metis Suc_leI append_take_drop_id drop_drop le_add_diff_inverse2)
  have "\<forall>x \<in> set mid. isalnum x"
  proof
    fix x assume "x \<in> set mid"
    then obtain n where n: "n < length mid" "x = mid ! n"
      by (auto simp: in_set_conv_nth)
    with j(1,2) have "n < j - Suc i" "Suc i + n < length fmt"
      by (auto simp: mid_def)
    with n have "x = fmt ! (Suc i + n)" "i < Suc i + n" "Suc i + n < j"
      by (auto simp: mid_def)
    with j(3) show "isalnum x" by blast
  qed
  moreover have "dropWhile isalnum (drop j fmt) = drop j fmt"
  proof (cases "j < length fmt")
    case True
    then have "drop j fmt = fmt ! j # drop (Suc j) fmt"
      by (simp add: Cons_nth_drop_Suc)
    with j(4) True show ?thesis by simp
  next
    case False
    then show ?thesis by simp
  qed
  ultimately show ?thesis
    by (simp add: split dropWhile_append)
qed

lemma format_loop_substitution:
  assumes "c \<noteq> CHR ''%''"
  shows "format_loop (pre @ CHR ''%'' # c # post) tuple (length pre) s =
     (let t = (if c = CHR ''x'' then case_x s else s)
      in if index t < length tuple
         then format_loop (dropWhile isalnum post) tuple 0
                (t\<lparr>ss := fst (printer_call (tuple ! index t) (ss t, printer t)),
                   index := Suc (index t)\<rparr>)
         else format_loop post tuple 0
                (case printer_call (ArgChar CHR ''%'') (ss t, printer t) of
                   (out, p) \<Rightarrow> t\<lparr>ss := out, printer := p\<rparr>))"
proof -
  let ?fmt = "pre @ CHR ''%'' # c # post"
  define t where "t = (if c = CHR ''x'' then case_x s else s)"
  have i: "length pre < length ?fmt" and p: "?fmt ! length pre = CHR ''%''"
    by (simp_all add: nth_append)
  have c: "char_at ?fmt (length pre + 1) = Some c"
    by (simp add: char_at_def nth_append)
  have body: "format_body ?fmt tuple (length pre) s = output_at ?fmt tuple (length pre + 1) t"
    using format_body_substitution [OF i p c assms, of tuple s] by (simp add: t_def)
  have d: "drop (length pre + 2) ?fmt = post"
    by simp
  have "format_loop ?fmt tuple (length pre) s =
      (if index t < length tuple
       then format_loop (dropWhile isalnum post) tuple 0
              (t\<lparr>ss := fst (printer_call (tuple ! index t) (ss t, printer t)),
                 index := Suc (index t)\<rparr>)
       else format_loop post tuple 0
              (case printer_call (ArgChar CHR ''%'') (ss t, printer t) of
                 (out, p) \<Rightarrow> t\<lparr>ss := out, printer := p\<rparr>))"
  proof (cases "index t < length tuple")
    case True
    let ?t = "t\<lparr>ss := fst (printer_call (tuple ! index t) (ss t, printer t)),
                 index := Suc (index t)\<rparr>"
    have "length pre + 1 < length ?fmt" by simp
    from skip_alnum_total [OF this] obtain j where j: "skip_alnum ?fmt (length pre + 1) = Inr j"
      by blast
    from skip_alnum_spec [OF j] have jb: "length pre + 1 < j" "j \<le> length ?fmt"
      by auto
    from skip_alnum_dropWhile [OF j] d have dj: "drop j ?fmt = dropWhile isalnum post"
      by simp
    from output_at_arg [OF True j] body
    have "format_body ?fmt tuple (length pre) s = Inr (j - 1, ?t)"
      by simp
    with format_loop_step [OF i, of tuple s] jb(1)
    have "format_loop ?fmt tuple (length pre) s = format_loop ?fmt tuple j ?t"
      by simp
    also have "\<dots> = format_loop (drop j ?fmt) tuple 0 ?t"
      by (rule format_loop_drop [OF jb(2)])
    finally show ?thesis
      using True dj by simp
  next
    case False
    let ?t = "case printer_call (ArgChar CHR ''%'') (ss t, printer t) of
                 (out, p) \<Rightarrow> t\<lparr>ss := out, printer := p\<rparr>"
    from False body
    have "format_body ?fmt tuple (length pre) s = Inr (length pre + 1, ?t)"
      by (simp add: output_at_def split: prod.splits)
    with format_loop_step [OF i, of tuple s]
    have "format_loop ?fmt tuple (length pre) s = format_loop ?fmt tuple (length pre + 2) ?t"
      by simp
    also have "\<dots> = format_loop (drop (length pre + 2) ?fmt) tuple 0 ?t"
      by (rule format_loop_drop) simp
    finally show ?thesis
      using False d by simp
  qed
  then show ?thesis
    by (simp add: t_def Let_def)
qed

subsection \<open>The base an integer is written in\<close>





subsection \<open>A run writes what the mini-language says\<close>














subsection \<open>The registry and the entry points\<close>

lemma format_total:
  "fmt = [] \<or> last fmt \<noteq> CHR ''%'' \<Longrightarrow> \<exists>message. format fmt args = Inr message"
  using format_loop_total [of fmt args 0 format_init]
  by (auto simp: format_def)

text \<open>
  Two keys are the same name only when they are the same pointer: an entry under another
  key stays where it is.
\<close>

lemma addLogger_other_key:
  "p \<noteq> q \<Longrightarrow> addLogger q B (addLogger p A loggers) p = Some A"
  by (simp add: addLogger_def)

section \<open>Format strings without a substitution\<close>

text \<open>
  C8. A format string in which no \<open>%\<close> occurs is rendered as it stands, character for
  character, whatever the arguments are and however many there are.
\<close>

theorem format_without_percent:
  "CHR ''%'' \<notin> set fmt \<Longrightarrow> format fmt args = Inr fmt"
  using format_loop_no_percent [of 0 fmt args format_init]
  by (simp add: format_def format_init_def stringstream_def write_chars_def)

theorem format_without_percent_witness:
  "CHR ''%'' \<notin> set ''listening on port'' \<and>
   format ''listening on port'' [ArgInt 8388, ArgStr ''unused''] = Inr ''listening on port''"
  using format_without_percent [of "''listening on port''" "[ArgInt 8388, ArgStr ''unused'']"]
  by simp

section \<open>Substitution points with no argument left\<close>

text \<open>
  C3. When the loop of \<open>format\<close> stands at a \<open>%\<close> that is not followed by a second \<open>%\<close> and
  every argument has been consumed already (\<open>index\<close> has reached the size of the tuple),
  the pass writes a literal \<open>%\<close> (after the prefix \<open>0x\<close> when the character after the
  \<open>%\<close> is \<open>x\<close>), consumes nothing and goes on behind that character; and from any such
  state the loop runs to its end and returns a state: no assertion fails and no read
  leaves the format string.
\<close>

theorem exhausted_arguments:
  assumes "length tuple \<le> index s"
  shows "(\<exists>s'. format_loop fmt tuple i s = Inr s') \<and>
         (i < length fmt \<and> fmt ! i = CHR ''%'' \<and> char_at fmt (i + 1) = Some c \<and> c \<noteq> CHR ''%'' \<longrightarrow>
            (\<exists>s'. format_body fmt tuple i s = Inr (i + 1, s') \<and> index s' = index s \<and>
                  buf (ss s') = buf (ss s) @ (if c = CHR ''x'' then ''0x'' else []) @ ''%''))"
proof
  show "\<exists>s'. format_loop fmt tuple i s = Inr s'"
    using assms by (rule format_loop_exhausted)
next
  show "i < length fmt \<and> fmt ! i = CHR ''%'' \<and> char_at fmt (i + 1) = Some c \<and> c \<noteq> CHR ''%'' \<longrightarrow>
            (\<exists>s'. format_body fmt tuple i s = Inr (i + 1, s') \<and> index s' = index s \<and>
                  buf (ss s') = buf (ss s) @ (if c = CHR ''x'' then ''0x'' else []) @ ''%'')"
  proof (intro impI, elim conjE)
    assume p: "fmt ! i = CHR ''%''" and c: "char_at fmt (i + 1) = Some c" and n: "c \<noteq> CHR ''%''"
    show "\<exists>s'. format_body fmt tuple i s = Inr (i + 1, s') \<and> index s' = index s \<and>
                  buf (ss s') = buf (ss s) @ (if c = CHR ''x'' then ''0x'' else []) @ ''%''"
    proof (cases "c = CHR ''x''")
      case True
      let ?t = "case_x s"
      from assms have "length tuple \<le> index ?t" by simp
      from output_at_exhausted [OF this, of fmt "i + 1"]
      obtain s' where "output_at fmt tuple (i + 1) ?t = Inr (i + 1, s')" "index s' = index ?t"
        "buf (ss s') = buf (ss ?t) @ ''%''" by blast
      with p c True show ?thesis
        by (simp add: format_body_def write_chars_def)
    next
      case False
      from output_at_exhausted [OF assms, of fmt "i + 1"]
      obtain s' where "output_at fmt tuple (i + 1) s = Inr (i + 1, s')" "index s' = index s"
        "buf (ss s') = buf (ss s) @ ''%''" by blast
      with p c n False show ?thesis
        by (simp add: format_body_def)
    qed
  qed
qed

theorem exhausted_arguments_witness:
  "length [ArgInt 1] \<le>
     index \<lparr>ss = \<lparr>buf = ''1-'', flags = {skipws, dec}\<rparr>, printer = new_printer, index = 1\<rparr> \<and>
   (\<exists>s'. format_loop ''%d-%s'' [ArgInt 1] 3
      \<lparr>ss = \<lparr>buf = ''1-'', flags = {skipws, dec}\<rparr>, printer = new_printer, index = 1\<rparr> = Inr s') \<and>
   (\<exists>s'. format_body ''%d-%s'' [ArgInt 1] 3
      \<lparr>ss = \<lparr>buf = ''1-'', flags = {skipws, dec}\<rparr>, printer = new_printer, index = 1\<rparr>
        = Inr (3 + 1, s') \<and>
      index s' = 1 \<and> buf (ss s') = ''1-%'') \<and>
   format ''%d-%s'' [ArgInt 1] = Inr ''1-%''"
proof -
  let ?s = "\<lparr>ss = \<lparr>buf = ''1-'', flags = {skipws, dec}\<rparr>, printer = new_printer, index = 1\<rparr>"
  have h: "length [ArgInt 1] \<le> index ?s"
    by simp
  have f: "format ''%d-%s'' [ArgInt 1] = Inr ''1-%''"
    by code_simp
  from exhausted_arguments [OF h, of "''%d-%s''" 3 "CHR ''s''"] h f show ?thesis
    by (simp add: char_at_def)
qed

section \<open>The escape \<open>%%\<close>\<close>

text \<open>
  C6. Wherever the loop of \<open>format\<close> meets the two characters \<open>%%\<close>, whatever stands
  before them (\<open>pre\<close>) and behind them (\<open>post\<close>) and in whatever state (arguments left
  or not, a flag pending or not), it writes exactly one \<open>%\<close>, leaves the argument
  counter, the printer and the stream's flags as they are, and goes on as a run over
  \<open>post\<close> does from its start. For a text \<open>pre\<close> without \<open>%\<close> the whole result is \<open>pre\<close>,
  one \<open>%\<close>, and what \<open>post\<close> renders to with all the arguments. The scan reads the format
  string from left to right, so in a run of \<open>%\<close> characters the pairs are taken from
  the left.
\<close>

theorem escape_percent:
  "format_loop (pre @ ''%%'' @ post) tuple (length pre) s =
     format_loop post tuple 0
       \<lparr>ss = \<lparr>buf = buf (ss s) @ ''%'', flags = flags (ss s)\<rparr>,
        printer = printer s, index = index s\<rparr> \<and>
   (CHR ''%'' \<notin> set pre \<longrightarrow>
      format (pre @ ''%%'' @ post) args =
        (case format post args of Inl e \<Rightarrow> Inl e | Inr out \<Rightarrow> Inr (pre @ ''%'' @ out)))"
proof
  let ?fmt = "pre @ ''%%'' @ post"
  let ?s = "\<lparr>ss = \<lparr>buf = buf (ss s) @ ''%'', flags = flags (ss s)\<rparr>,
        printer = printer s, index = index s\<rparr>"
  have i: "length pre < length ?fmt" and p: "?fmt ! length pre = CHR ''%''"
    by (simp_all add: nth_append)
  have c: "char_at ?fmt (length pre + 1) = Some CHR ''%''"
    by (simp add: char_at_def nth_append)
  have "s\<lparr>ss := write_chars ''%'' (ss s)\<rparr> = ?s"
    by (simp add: write_chars_def)
  with format_body_escape [OF p c, of tuple s]
  have "format_body ?fmt tuple (length pre) s = Inr (length pre + 1, ?s)"
    by simp
  with format_loop_step [OF i, of tuple s]
  have "format_loop ?fmt tuple (length pre) s = format_loop ?fmt tuple (Suc (length pre + 1)) ?s"
    by simp
  also have "\<dots> = format_loop post tuple 0 ?s"
    using format_loop_shift [of "pre @ ''%%''" post tuple 0 ?s] by simp
  finally show "format_loop ?fmt tuple (length pre) s = format_loop post tuple 0 ?s" .
next
  show "CHR ''%'' \<notin> set pre \<longrightarrow>
      format (pre @ ''%%'' @ post) args =
        (case format post args of Inl e \<Rightarrow> Inl e | Inr out \<Rightarrow> Inr (pre @ ''%'' @ out))"
  proof
    assume "CHR ''%'' \<notin> set pre"
    from format_literal_prefix [OF this, of "''%%'' @ post" args]
    show "format (pre @ ''%%'' @ post) args =
        (case format post args of Inl e \<Rightarrow> Inl e | Inr out \<Rightarrow> Inr (pre @ ''%'' @ out))"
      by (simp add: format_escape_head split: sum.splits)
  qed
qed

theorem escape_percent_witness:
  "CHR ''%'' \<notin> set ''100'' \<and>
   format '' done'' [] = Inr '' done'' \<and>
   format (''100'' @ ''%%'' @ '' done'') [] = Inr (''100'' @ ''%'' @ '' done'') \<and>
   format ''100%% done'' [] = Inr ''100% done'' \<and>
   format ''%d%% of %s'' [ArgInt 40, ArgStr ''disk''] = Inr ''40% of disk''"
proof -
  have f: "format '' done'' [] = Inr '' done''"
    by code_simp
  have g: "format ''%d%% of %s'' [ArgInt 40, ArgStr ''disk''] = Inr ''40% of disk''"
    by code_simp
  from escape_percent [of "''100''" "'' done''" "[]" format_init "[]"] f g show ?thesis
    by simp
qed

section \<open>The character after a \<open>%\<close>\<close>

text \<open>
  C10. When the loop of \<open>format\<close> stands at a \<open>%\<close> that is followed by a character \<open>c\<close> other
  than \<open>%\<close>, whatever stands before them (\<open>pre\<close>) and behind them (\<open>post\<close>), the character
  \<open>c\<close> is stepped over: alphanumeric or not, argument left or not, the run goes on
  behind it and never comes back to it. The pass writes the prefix \<open>0x\<close> when \<open>c\<close> is
  \<open>x\<close>, and then the next argument, after which the run goes on over \<open>post\<close> without its
  leading alphanumeric characters; or, when no argument is left, a \<open>%\<close>, after which the
  run goes on over all of \<open>post\<close>. So \<open>"% a"\<close> without arguments gives \<open>"%a"\<close> and \<open>"%s"\<close>
  without arguments gives \<open>"%"\<close>.
\<close>

theorem char_after_percent_consumed:
  assumes "c \<noteq> CHR ''%''"
  shows "format_loop (pre @ CHR ''%'' # c # post) tuple (length pre) s =
     (let t = (if c = CHR ''x'' then case_x s else s)
      in if index t < length tuple
         then format_loop (dropWhile isalnum post) tuple 0
                (t\<lparr>ss := fst (printer_call (tuple ! index t) (ss t, printer t)),
                   index := Suc (index t)\<rparr>)
         else format_loop post tuple 0
                (case printer_call (ArgChar CHR ''%'') (ss t, printer t) of
                   (out, p) \<Rightarrow> t\<lparr>ss := out, printer := p\<rparr>)) \<and>
     buf (fst (printer_call v (out, p))) = buf out @ show_arg (flags out) v \<and>
     buf (ss (case_x s)) = buf (ss s) @ ''0x'' \<and> index (case_x s) = index s"
  using format_loop_substitution [OF assms, of pre post tuple s] buf_printer_call [of v out p]
  by simp

theorem char_after_percent_consumed_witness:
  "CHR '' '' \<noteq> CHR ''%'' \<and>
   format_loop ([] @ CHR ''%'' # CHR '' '' # ''a'') [] (length ([] :: string)) format_init =
     format_loop ''a'' [] 0
       \<lparr>ss = \<lparr>buf = ''%'', flags = {skipws, dec}\<rparr>, printer = new_printer, index = 0\<rparr> \<and>
   format ''% a'' [] = Inr ''%a'' \<and> format ''%s'' [] = Inr ''%'' \<and>
   format ''%-5d|'' [ArgInt 7] = Inr ''7|''"
proof -
  have f: "format ''% a'' [] = Inr ''%a''" "format ''%s'' [] = Inr ''%''"
    "format ''%-5d|'' [ArgInt 7] = Inr ''7|''"
    by code_simp+
  from char_after_percent_consumed [of "CHR '' ''" "[]" "''a''" "[]" format_init] f show ?thesis
    by (simp add: printer_call_def put_def write_chars_def new_printer_def format_init_def
        stringstream_def)
qed

section \<open>The assertion of \<open>VisitImpl<0>\<close>\<close>

text \<open>
  C9. \<open>visit\<close> fails its assertion exactly when it is called with an index that is not
  below the size of the tuple. \<open>format\<close> guards its call of \<open>visit\<close> with
  \<open>index < tupleSize\<close>, so no call of \<open>format\<close>, for any format string and any arguments,
  ends in the failed assertion.
\<close>

theorem visit_assertion_unreachable:
  "format fmt args \<noteq> Inl AssertionFailed \<and>
   (visit tuple idx func s = Inl AssertionFailed \<longleftrightarrow> length tuple \<le> idx)"
proof
  show "format fmt args \<noteq> Inl AssertionFailed"
    using format_loop_not_assert [of fmt args 0 format_init]
    by (auto simp: format_def split: sum.splits)
next
  show "visit tuple idx func s = Inl AssertionFailed \<longleftrightarrow> length tuple \<le> idx"
    using visit_in_range [of idx tuple func s] visit_out_of_range [of tuple idx func s]
    by (cases "idx < length tuple") auto
qed

theorem visit_assertion_unreachable_witness:
  "format ''%d %d %d'' [ArgInt 1] \<noteq> Inl AssertionFailed \<and>
   visit [ArgInt 1] 1 (\<lambda>v out. put v out) stringstream = Inl AssertionFailed \<and>
   length [ArgInt 1] \<le> 1 \<and>
   visit [ArgInt 1] 0 (\<lambda>v out. put v out) stringstream \<noteq> Inl AssertionFailed \<and>
   \<not> length [ArgInt 1] \<le> 0"
  using visit_assertion_unreachable [of "''%d %d %d''" "[ArgInt 1]" "[ArgInt 1]" 1 "\<lambda>v out. put v out" stringstream]
    visit_assertion_unreachable [of "''%d %d %d''" "[ArgInt 1]" "[ArgInt 1]" 0 "\<lambda>v out. put v out" stringstream]
  by simp

section \<open>Arguments are taken in order\<close>

text \<open>
  C7. \<open>format\<close> takes its arguments from left to right, one at each substitution point:
  a pass that stands at a \<open>%\<close> not followed by \<open>%\<close>, with an argument left, writes the
  argument at position \<open>index\<close> and moves \<open>index\<close> up by one; a run that returns has taken
  as many arguments as the format string has substitution points (or all of them, when
  there are fewer), and every run returns when the format string does not end in \<open>%\<close>;
  and when the arguments are at least as many as the substitution points, any further
  arguments behind them change nothing of the result.
\<close>

theorem arguments_left_to_right:
  "(format_loop fmt args 0 format_init = Inr s' \<longrightarrow>
      index s' = min (substitution_points fmt) (length args)) \<and>
   (fmt = [] \<or> last fmt \<noteq> CHR ''%'' \<longrightarrow> (\<exists>s'. format_loop fmt args 0 format_init = Inr s')) \<and>
   (i < length fmt \<and> fmt ! i = CHR ''%'' \<and> char_at fmt (i + 1) = Some c \<and> c \<noteq> CHR ''%'' \<and>
    index s < length args \<and> format_body fmt args i s = Inr (i', t) \<longrightarrow>
      index t = Suc (index s) \<and>
      buf (ss t) = buf (ss s) @ (if c = CHR ''x'' then ''0x'' else [])
        @ show_arg (if c = CHR ''x'' then (flags (ss s) - basefield) \<union> {hex} else flags (ss s))
            (args ! index s)) \<and>
   (substitution_points fmt \<le> length args \<longrightarrow> format fmt (args @ extra) = format fmt args)"
proof (intro conjI impI)
  assume "format_loop fmt args 0 format_init = Inr s'"
  from format_loop_index [OF this] show "index s' = min (substitution_points fmt) (length args)"
    by (simp add: format_init_def)
next
  assume "fmt = [] \<or> last fmt \<noteq> CHR ''%''"
  then show "\<exists>s'. format_loop fmt args 0 format_init = Inr s'"
    by (rule format_loop_total)
next
  assume "substitution_points fmt \<le> length args"
  then have "format_loop fmt (args @ extra) 0 format_init = format_loop fmt args 0 format_init"
    by (intro format_loop_append) (simp add: format_init_def)
  then show "format fmt (args @ extra) = format fmt args"
    by (simp add: format_def)
next
  assume a: "i < length fmt \<and> fmt ! i = CHR ''%'' \<and> char_at fmt (i + 1) = Some c \<and> c \<noteq> CHR ''%'' \<and>
    index s < length args \<and> format_body fmt args i s = Inr (i', t)"
  define u where "u = (if c = CHR ''x''
      then case_x s else s)"
  have u: "index u = index s"
    "flags (ss u) = (if c = CHR ''x'' then (flags (ss s) - basefield) \<union> {hex} else flags (ss s))"
    "buf (ss u) = buf (ss s) @ (if c = CHR ''x'' then ''0x'' else [])"
    by (simp_all add: u_def flags_case_x)
  from a have o: "output_at fmt args (i + 1) u = Inr (i', t)"
    using format_body_substitution [of i fmt c args s] by (simp add: u_def)
  from a u have arg: "index u < length args" by simp
  from o arg obtain j where j: "skip_alnum fmt (i + 1) = Inr j"
    by (auto simp: output_at_def visit_in_range split: sum.splits)
  from o output_at_arg [OF arg j]
  have t: "t = u\<lparr>ss := fst (printer_call (args ! index u) (ss u, printer u)),
      index := Suc (index u)\<rparr>"
    by simp
  show "index t = Suc (index s)"
    by (simp add: t u)
  show "buf (ss t) = buf (ss s) @ (if c = CHR ''x'' then ''0x'' else [])
        @ show_arg (if c = CHR ''x'' then (flags (ss s) - basefield) \<union> {hex} else flags (ss s))
            (args ! index s)"
    by (simp add: t buf_printer_call u)
qed

theorem arguments_left_to_right_witness:
  "format_loop ''%s:%d'' [ArgStr ''a'', ArgInt 7] 0 format_init =
     Inr \<lparr>ss = \<lparr>buf = ''a:7'', flags = {skipws, dec}\<rparr>,
          printer = \<lparr>defaultFlags = {}\<rparr>, index = 2\<rparr> \<and>
   (2::nat) = min (substitution_points ''%s:%d'') (length [ArgStr ''a'', ArgInt 7]) \<and>
   format_body ''%s:%d'' [ArgStr ''a'', ArgInt 7] 0 format_init =
     Inr (1, \<lparr>ss = \<lparr>buf = ''a'', flags = {skipws, dec}\<rparr>,
              printer = \<lparr>defaultFlags = {}\<rparr>, index = 1\<rparr>) \<and>
   substitution_points ''%s:%d'' \<le> length [ArgStr ''a'', ArgInt 7] \<and>
   format ''%s:%d'' ([ArgStr ''a'', ArgInt 7] @ [ArgInt 9]) = format ''%s:%d'' [ArgStr ''a'', ArgInt 7] \<and>
   format ''%s:%d'' [ArgStr ''a'', ArgInt 7] = Inr ''a:7''"
proof -
  have l: "format_loop ''%s:%d'' [ArgStr ''a'', ArgInt 7] 0 format_init =
     Inr \<lparr>ss = \<lparr>buf = ''a:7'', flags = {skipws, dec}\<rparr>,
          printer = \<lparr>defaultFlags = {}\<rparr>, index = 2\<rparr>"
    by code_simp
  have b: "format_body ''%s:%d'' [ArgStr ''a'', ArgInt 7] 0 format_init =
     Inr (1, \<lparr>ss = \<lparr>buf = ''a'', flags = {skipws, dec}\<rparr>,
              printer = \<lparr>defaultFlags = {}\<rparr>, index = 1\<rparr>)"
    by code_simp
  have f: "format ''%s:%d'' [ArgStr ''a'', ArgInt 7] = Inr ''a:7''"
    by code_simp
  from arguments_left_to_right [of "''%s:%d''" "[ArgStr ''a'', ArgInt 7]"
      "\<lparr>ss = \<lparr>buf = ''a:7'', flags = {skipws, dec}\<rparr>, printer = \<lparr>defaultFlags = {}\<rparr>, index = 2\<rparr>"
      0 "CHR ''s''" format_init 1
      "\<lparr>ss = \<lparr>buf = ''a'', flags = {skipws, dec}\<rparr>, printer = \<lparr>defaultFlags = {}\<rparr>, index = 1\<rparr>"
      "[ArgInt 9]"] l b f
  show ?thesis
    by (simp add: char_at_def)
qed

section \<open>What the entry points hand back\<close>

text \<open>
  C1, as the code has it. The six level-keyed entry points are declared \<open>void\<close>: at a
  format string that \<open>format\<close> renders, \<open>verbose\<close>, \<open>debug\<close>, \<open>info\<close>, \<open>warning\<close> and \<open>error\<close>
  pass the rendered message to the private log and return nothing, and \<open>emergency\<close> does
  not return at all. The rendered message comes back from the generic
  \<open>log(level, fmt, args...)\<close>, at every level but \<open>LL_EMERGENCY\<close>, whatever the private log
  does with the message.
\<close>

theorem entry_points_return:
  assumes "format fmt args = Inr message"
  shows "verbose log_message fmt args w = Returned Void (log_message LL_VERBOSE message w) \<and>
         debug log_message fmt args w = Returned Void (log_message LL_DEBUG message w) \<and>
         info log_message fmt args w = Returned Void (log_message LL_INFO message w) \<and>
         warning log_message fmt args w = Returned Void (log_message LL_WARNING message w) \<and>
         error log_message fmt args w = Returned Void (log_message LL_ERROR message w) \<and>
         returned (emergency log_message fmt args w) = None \<and>
         (level \<noteq> LL_EMERGENCY \<longrightarrow>
            log log_message level fmt args w = Returned (Text message) (log_message level message w))"
  using assms
  by (simp add: verbose_def debug_def info_def warning_def error_def emergency_def log_def)

theorem entry_points_return_witness:
  "format ''port %d'' [ArgInt 80] = Inr ''port 80'' \<and>
   verbose write_never ''port %d'' [ArgInt 80] [] = Returned Void [] \<and>
   error write_always ''port %d'' [ArgInt 80] [] = Returned Void [''port 80''] \<and>
   LL_INFO \<noteq> LL_EMERGENCY \<and>
   log write_never LL_INFO ''port %d'' [ArgInt 80] [] = Returned (Text ''port 80'') [] \<and>
   log write_always LL_INFO ''port %d'' [ArgInt 80] [] = Returned (Text ''port 80'') [''port 80'']"
proof -
  have f: "format ''port %d'' [ArgInt 80] = Inr ''port 80''"
    by code_simp
  from entry_points_return [OF f, of write_never "[]" LL_INFO]
    entry_points_return [OF f, of write_always "[]" LL_INFO] f
  show ?thesis
    by (simp add: write_never_def write_always_def)
qed

text \<open>
  C1 as it is written fails: \<open>verbose("hi")\<close> renders \<open>"hi"\<close>, writes it, and hands nothing
  back to its caller.
\<close>

theorem verbose_returns_nothing:
  "format ''hi'' [] = Inr ''hi'' \<and>
   verbose write_always ''hi'' [] [] = Returned Void [''hi''] \<and>
   returned (verbose write_always ''hi'' [] []) \<noteq> Some (Text ''hi'')"
proof -
  have f: "format ''hi'' [] = Inr ''hi''"
    by code_simp
  then show ?thesis
    by (simp add: verbose_def write_always_def)
qed

section \<open>The emergency exit\<close>

text \<open>
  C4. At a format string that \<open>format\<close> renders (every format string that does not end
  in \<open>%\<close> is one), \<open>emergency\<close> passes the rendered message to the private log at level
  \<open>LL_EMERGENCY\<close> and then ends the process with the status \<open>OPERATOR_FAILURE\<close>; it does so
  for every private log, so no threshold stands in the way. The generic
  \<open>log(level, fmt, args...)\<close> called at the level \<open>LL_EMERGENCY\<close> is the same path: it
  passes the message to the private log and then ends the process with the same status.
  The five other level-keyed entry points return and end no process, and neither does
  the generic \<open>log\<close> at any other level.
\<close>

theorem emergency_exits:
  "(format fmt args = Inr message \<longrightarrow>
      emergency log_message fmt args w =
        Exited OPERATOR_FAILURE (log_message LL_EMERGENCY message w) \<and>
      log log_message LL_EMERGENCY fmt args w =
        Exited OPERATOR_FAILURE (log_message LL_EMERGENCY message w) \<and>
      exit_status (verbose log_message fmt args w) = None \<and>
      exit_status (debug log_message fmt args w) = None \<and>
      exit_status (info log_message fmt args w) = None \<and>
      exit_status (warning log_message fmt args w) = None \<and>
      exit_status (error log_message fmt args w) = None \<and>
      exit_status (log log_message level fmt args w) =
        (if level = LL_EMERGENCY then Some OPERATOR_FAILURE else None)) \<and>
   (fmt = [] \<or> last fmt \<noteq> CHR ''%'' \<longrightarrow>
      exit_status (emergency log_message fmt args w) = Some OPERATOR_FAILURE)"
proof (intro conjI impI)
  assume "fmt = [] \<or> last fmt \<noteq> CHR ''%''"
  from format_total [OF this] obtain message where "format fmt args = Inr message" ..
  then show "exit_status (emergency log_message fmt args w) = Some OPERATOR_FAILURE"
    by (simp add: emergency_def)
qed (simp_all add: verbose_def debug_def info_def warning_def error_def emergency_def
    log_def Let_def)

theorem emergency_exits_witness:
  "format ''bind %s failed'' [ArgStr ''0.0.0.0''] = Inr ''bind 0.0.0.0 failed'' \<and>
   emergency write_always ''bind %s failed'' [ArgStr ''0.0.0.0''] [] =
     Exited (- 1) [''bind 0.0.0.0 failed''] \<and>
   emergency write_never ''bind %s failed'' [ArgStr ''0.0.0.0''] [] = Exited (- 1) [] \<and>
   log write_always LL_EMERGENCY ''bind %s failed'' [ArgStr ''0.0.0.0''] [] =
     Exited (- 1) [''bind 0.0.0.0 failed''] \<and>
   exit_status (error write_always ''bind %s failed'' [ArgStr ''0.0.0.0''] []) = None \<and>
   exit_status (log write_always LL_EMERGENCY ''bind %s failed'' [ArgStr ''0.0.0.0''] []) = Some (- 1) \<and>
   exit_status (log write_always LL_ERROR ''bind %s failed'' [ArgStr ''0.0.0.0''] []) = None \<and>
   last ''bind %s failed'' \<noteq> CHR ''%''"
proof -
  have f: "format ''bind %s failed'' [ArgStr ''0.0.0.0''] = Inr ''bind 0.0.0.0 failed''"
    by code_simp
  from emergency_exits [of "''bind %s failed''" "[ArgStr ''0.0.0.0'']" "''bind 0.0.0.0 failed''"
      write_always "[]" LL_EMERGENCY]
    emergency_exits [of "''bind %s failed''" "[ArgStr ''0.0.0.0'']" "''bind 0.0.0.0 failed''"
      write_never "[]" LL_ERROR]
    emergency_exits [of "''bind %s failed''" "[ArgStr ''0.0.0.0'']" "''bind 0.0.0.0 failed''"
      write_always "[]" LL_ERROR] f
  show ?thesis
    by (simp add: write_never_def write_always_def OPERATOR_FAILURE_def)
qed

section \<open>The registry\<close>

text \<open>
  C5. The registry holds at most one logger under a name: after two registrations under
  the same name a lookup finds the second logger, and the first is no longer found
  under it. \<open>removeLogger\<close> answers true when the name had an entry and false when it is
  called again with no registration in between.
\<close>

theorem registry_one_logger_per_name:
  "addLogger x B (addLogger x A loggers) x = Some B \<and>
   (A \<noteq> B \<longrightarrow> addLogger x B (addLogger x A loggers) x \<noteq> Some A) \<and>
   (loggers x \<noteq> None \<longrightarrow> fst (removeLogger x loggers)) \<and>
   \<not> fst (removeLogger x (snd (removeLogger x loggers)))"
  by (simp add: addLogger_def removeLogger_def)

theorem registry_one_logger_per_name_witness:
  "addLogger 7 2 (addLogger 7 1 Map.empty) 7 = Some 2 \<and>
   (1::nat) \<noteq> 2 \<and> addLogger 7 2 (addLogger 7 1 Map.empty) 7 \<noteq> Some 1 \<and>
   addLogger 7 2 (addLogger 7 1 Map.empty) 7 \<noteq> None \<and>
   fst (removeLogger 7 (addLogger 7 2 (addLogger 7 1 Map.empty))) \<and>
   \<not> fst (removeLogger 7 (snd (removeLogger 7 (addLogger 7 2 (addLogger 7 1 Map.empty)))))"
  using registry_one_logger_per_name [of 7 2 1 Map.empty]
    registry_one_logger_per_name [of 7 2 1 "addLogger 7 2 (addLogger 7 1 Map.empty)"]
  by (simp add: addLogger_def)

section \<open>The flag of \<open>%x\<close>\<close>



end
